theory Spec2Isabelle
  imports Complex_Main
begin

section \<open>Errors\<close>

text \<open>
  The notebooks are Python; an exception that ends a cell is a value of this type, named
  after the Python exception class that is raised.
\<close>

datatype error = ZeroDivisionError | IndexError | ValueError | RuntimeError

section \<open>The training dataset\<close>

text \<open>
  \<^verbatim>\<open>
  class TrainDatasetUnsupervised(torch.utils.data.Dataset):
      def __init__(self, images, n_iters=1, transform=None):
          self.images = images
          self.n_images = len(images)
          self.n_iters = n_iters
          self.transform = transform

      def __len__(self):
          return self.n_images * self.n_iters

      def __getitem__(self, idx):
          idx = idx % self.n_images
          image = self.images[idx]
          if self.transform:
              image = self.transform(image)
          return image
  \<close>
  The images are the entries of the first axis of a tensor, here a list. The transform
  (a random crop in the notebook) draws from the random number generator and may raise, so
  it takes the generator state \<open>'g\<close> and returns an error or the new image with the new state.
\<close>

record ('a, 'g) TrainDatasetUnsupervised =
  images :: "'a list"
  n_images :: int
  n_iters :: int
  transform :: "('g \<Rightarrow> 'a \<Rightarrow> error + 'a \<times> 'g) option"

definition init_dataset ::
  "'a list \<Rightarrow> int \<Rightarrow> ('g \<Rightarrow> 'a \<Rightarrow> error + 'a \<times> 'g) option \<Rightarrow> ('a, 'g) TrainDatasetUnsupervised" where
  "init_dataset imgs iters tr =
     \<lparr>images = imgs, n_images = int (length imgs), n_iters = iters, transform = tr\<rparr>"

definition len_dataset :: "('a, 'g) TrainDatasetUnsupervised \<Rightarrow> int" where
  "len_dataset ds = n_images ds * n_iters ds"

text \<open>Python's \<open>%\<close> on integers: the result has the sign of the divisor; a zero divisor raises.\<close>

definition py_mod :: "int \<Rightarrow> int \<Rightarrow> error + int" where
  "py_mod a b = (if b = 0 then Inl ZeroDivisionError else Inr (a mod b))"

text \<open>Indexing the first axis with an integer: a negative index counts from the end.\<close>

definition index0 :: "'a list \<Rightarrow> int \<Rightarrow> error + 'a" where
  "index0 xs i =
     (if 0 \<le> i \<and> i < int (length xs) then Inr (xs ! nat i)
      else if i < 0 \<and> - int (length xs) \<le> i then Inr (xs ! nat (int (length xs) + i))
      else Inl IndexError)"

definition getitem ::
  "('a, 'g) TrainDatasetUnsupervised \<Rightarrow> int \<Rightarrow> 'g \<Rightarrow> error + 'a \<times> 'g" where
  "getitem ds idx g =
     (case py_mod idx (n_images ds) of
        Inl e \<Rightarrow> Inl e
      | Inr idx' \<Rightarrow>
          (case index0 (images ds) idx' of
             Inl e \<Rightarrow> Inl e
           | Inr img \<Rightarrow>
               (case transform ds of
                  None \<Rightarrow> Inr (img, g)
                | Some t \<Rightarrow> t g img)))"

text \<open>
  One epoch of a data loader visits every index of \<open>range(len(dataset))\<close> once (shuffled or
  not). \<open>served ds j\<close> counts the visits that read image \<open>j\<close>.
\<close>

definition epoch :: "('a, 'g) TrainDatasetUnsupervised \<Rightarrow> int list" where
  "epoch ds = map int [0 ..< nat (len_dataset ds)]"

definition served :: "('a, 'g) TrainDatasetUnsupervised \<Rightarrow> nat \<Rightarrow> nat" where
  "served ds j = length (filter (\<lambda>idx. idx mod n_images ds = int j) (epoch ds))"

section \<open>Tensors\<close>

text \<open>
  A tensor is the nested list of its entries, outermost axis first. The test data of the
  inference notebook is \<^verbatim>\<open>tifffile.imread(data_path)[:, None, :512, :512]\<close>: frames, one
  channel, rows, columns. Pixel intensities are 32-bit floats in the notebook and real numbers
  here: rounding, overflow and NaN are outside the model.

  The shape of a tensor is recorded as the length of every row of every channel of every
  frame. For the rectangular arrays of torch with no axis of length zero, two tensors have the
  same \<open>shape4\<close> exactly when they have the same torch shape.
\<close>

type_synonym image = "real list list list"
type_synonym tensor4 = "image list"
type_synonym tensor5 = "tensor4 list"

definition shape3 :: "'a list list list \<Rightarrow> nat list list" where
  "shape3 img = map (map length) img"

definition shape4 :: "'a list list list list \<Rightarrow> nat list list list" where
  "shape4 t = map shape3 t"

text \<open>The frames of a tensor all have the shape of the first one.\<close>

definition frames_agree :: "'a list list list list \<Rightarrow> bool" where
  "frames_agree t = list_all (\<lambda>img. shape3 img = shape3 (hd t)) t"

definition zeros_like :: "tensor4 \<Rightarrow> tensor4" where
  "zeros_like t = map (map (map (map (\<lambda>_. 0)))) t"

text \<open>
  Running a list of computations that may raise: the first exception ends the run.
\<close>

fun sequence :: "(error + 'a) list \<Rightarrow> error + 'a list" where
  "sequence [] = Inr []"
| "sequence (x # xs) =
     (case x of
        Inl e \<Rightarrow> Inl e
      | Inr v \<Rightarrow> (case sequence xs of Inl e \<Rightarrow> Inl e | Inr vs \<Rightarrow> Inr (v # vs)))"

text \<open>
  One axis of an in-place operation with broadcasting: the right operand has the length of
  the left one, or length one, in which case its only entry meets every entry of the left
  operand. Any other length raises. The result has the length of the left operand.
\<close>

definition broadcast2 :: "('a \<Rightarrow> 'b \<Rightarrow> error + 'a) \<Rightarrow> 'a list \<Rightarrow> 'b list \<Rightarrow> error + 'a list" where
  "broadcast2 f a b =
     (if length b = length a then sequence (map2 f a b)
      else if length b = 1 then sequence (map (\<lambda>x. f x (hd b)) a)
      else Inl RuntimeError)"

text \<open>
  \<^verbatim>\<open>MMSEs += out\<close>: the entrywise sum, stored in the left operand, whose shape it keeps.
  torch broadcasts the right operand: on every axis it has the length of the left operand or
  length one. It raises when the right operand cannot be broadcast to the shape of the left
  one.
\<close>

definition iadd :: "tensor4 \<Rightarrow> tensor4 \<Rightarrow> error + tensor4" where
  "iadd a b = broadcast2 (broadcast2 (broadcast2 (broadcast2 (\<lambda>x y. Inr (x + y))))) a b"

text \<open>\<^verbatim>\<open>MMSEs / n_samples\<close>: every entry divided by the integer.\<close>

definition true_divide :: "tensor4 \<Rightarrow> int \<Rightarrow> tensor4" where
  "true_divide t n = map (map (map (map (\<lambda>x. x / real_of_int n)))) t"

text \<open>
  \<^verbatim>\<open>torch.cat(out, dim=0)\<close> on the list of batch outputs: raises on an empty list and when
  the tensors differ in an axis other than the first.
\<close>

definition cat0 :: "tensor4 list \<Rightarrow> error + tensor4" where
  "cat0 ts =
     (if ts = [] then Inl RuntimeError
      else if frames_agree (concat ts) then Inr (concat ts)
      else Inl RuntimeError)"

text \<open>
  \<^verbatim>\<open>torch.stack(samples, dim=0)\<close>: raises on an empty list and when the tensors differ in
  shape; the result has the list index as its new first axis.
\<close>

definition stack0 :: "tensor4 list \<Rightarrow> error + tensor5" where
  "stack0 ts =
     (if ts = [] then Inl RuntimeError
      else if list_all (\<lambda>t. shape4 t = shape4 (hd ts)) ts then Inr ts
      else Inl RuntimeError)"

text \<open>
  \<^verbatim>\<open>torch.moveaxis(samples, 1, 0)\<close>: axis 1 of the argument becomes axis 0 of the result, so
  entry \<open>[f][s]\<close> of the result is entry \<open>[s][f]\<close> of the argument. The argument comes from
  \<open>stack0\<close> and is never empty.
\<close>

fun moveaxis_1_0 :: "tensor5 \<Rightarrow> tensor5" where
  "moveaxis_1_0 [] = []"
| "moveaxis_1_0 (t # ts) = map (\<lambda>f. map (\<lambda>s. s ! f) (t # ts)) [0 ..< length t]"

section \<open>The prediction loader and the trainer\<close>

text \<open>
  \<^verbatim>\<open>
  predict_set = PredictDataset(test_data)
  predict_loader = torch.utils.data.DataLoader(
      predict_set, batch_size=predict_batch_size, shuffle=False, pin_memory=True)
  \<close>
  \<open>PredictDataset\<close> returns \<open>images[idx]\<close>; without shuffling the loader yields the frames
  in order, \<open>batch_size\<close> at a time, the last batch shorter when the count does not divide.
  A batch size that is not positive makes the constructor raise ValueError.
\<close>

function batches :: "nat \<Rightarrow> 'a list \<Rightarrow> 'a list list" where
  "batches bs xs =
     (if bs = 0 \<or> xs = [] then [] else take bs xs # batches bs (drop bs xs))"
  by pat_completeness auto
termination
  by (relation "measure (\<lambda>(bs, xs). length xs)") auto

declare batches.simps [simp del]

definition DataLoader :: "'a list \<Rightarrow> int \<Rightarrow> error + 'a list list" where
  "DataLoader dataset batch_size =
     (if batch_size \<le> 0 then Inl ValueError else Inr (batches (nat batch_size) dataset))"

text \<open>
  \<^verbatim>\<open>trainer.predict(dvlae, predict_loader)\<close> calls the model's prediction step on every
  batch in turn and returns the list of the outputs. The class \<open>DVLAE\<close> is not part of the
  notebooks, so its prediction step is the parameter \<open>step\<close>: from the state of the random
  number generator and a batch to the denoised batch and the state left behind.
\<close>

fun predict :: "('g \<Rightarrow> tensor4 \<Rightarrow> tensor4 \<times> 'g) \<Rightarrow> 'g \<Rightarrow> tensor4 list \<Rightarrow> tensor4 list \<times> 'g" where
  "predict step g [] = ([], g)"
| "predict step g (b # bs) =
     (case step g b of (y, g') \<Rightarrow>
        (case predict step g' bs of (ys, g'') \<Rightarrow> (y # ys, g'')))"

section \<open>The inference loop\<close>

text \<open>
  \<^verbatim>\<open>
  samples = []
  MMSEs = torch.zeros_like(test_data)
  for _ in tqdm(range(n_samples)):
      out = trainer.predict(dvlae, predict_loader)
      out = torch.cat(out, dim=0)
      samples.append(out)
      MMSEs += out

  MMSEs = MMSEs / n_samples

  samples = torch.stack(samples, dim=0)
  samples = torch.moveaxis(samples, 1, 0)
  \<close>
  The loop state is the list of samples, the running sum and the generator state;
  \<open>range(n_samples)\<close> is empty for a count that is not positive. The value of the cell is
  the two arrays written to \<open>MMSEs.tif\<close> and \<open>samples.tif\<close>, with the state in which the
  cell leaves the random number generator. For a count that is not positive the stacking
  raises, so the quotient by zero is never written.
\<close>

fun sample_loop ::
  "('g \<Rightarrow> tensor4 \<Rightarrow> tensor4 \<times> 'g) \<Rightarrow> tensor4 list \<Rightarrow> nat \<Rightarrow>
   tensor4 list \<times> tensor4 \<times> 'g \<Rightarrow> error + tensor4 list \<times> tensor4 \<times> 'g" where
  "sample_loop step loader 0 st = Inr st"
| "sample_loop step loader (Suc k) (samples, MMSEs, g) =
     (case predict step g loader of (outs, g') \<Rightarrow>
        (case cat0 outs of
           Inl e \<Rightarrow> Inl e
         | Inr out \<Rightarrow>
             (case iadd MMSEs out of
                Inl e \<Rightarrow> Inl e
              | Inr MMSEs' \<Rightarrow> sample_loop step loader k (samples @ [out], MMSEs', g'))))"

definition inference ::
  "('g \<Rightarrow> tensor4 \<Rightarrow> tensor4 \<times> 'g) \<Rightarrow> int \<Rightarrow> int \<Rightarrow> tensor4 \<Rightarrow> 'g \<Rightarrow>
   error + tensor4 \<times> tensor5 \<times> 'g" where
  "inference step predict_batch_size n_samples test_data g =
     (case DataLoader test_data predict_batch_size of
        Inl e \<Rightarrow> Inl e
      | Inr predict_loader \<Rightarrow>
          (case sample_loop step predict_loader (nat n_samples) ([], zeros_like test_data, g) of
             Inl e \<Rightarrow> Inl e
           | Inr (samples, MMSEs, g') \<Rightarrow>
               (case stack0 samples of
                  Inl e \<Rightarrow> Inl e
                | Inr stacked \<Rightarrow> Inr (true_divide MMSEs n_samples, moveaxis_1_0 stacked, g'))))"

section \<open>Forward passes\<close>

text \<open>
  What one full stochastic forward pass over the input is, said without the trainer: the
  network's prediction step is applied to every batch of the loader in order, each batch in
  the generator state the batch before it left, and the denoised batches are joined along the
  frame axis. The result is the denoised frames and the generator state after the pass.
\<close>

definition forward_pass ::
  "('g \<Rightarrow> tensor4 \<Rightarrow> tensor4 \<times> 'g) \<Rightarrow> tensor4 list \<Rightarrow> 'g \<Rightarrow> tensor4 \<times> 'g" where
  "forward_pass step loader g =
     foldl (\<lambda>(out, g) b. case step g b of (y, g') \<Rightarrow> (out @ y, g')) ([], g) loader"

text \<open>The generator state after \<open>k\<close> forward passes in a row, starting from \<open>g\<close>.\<close>

fun after_passes :: "('g \<Rightarrow> tensor4 \<Rightarrow> tensor4 \<times> 'g) \<Rightarrow> tensor4 list \<Rightarrow> nat \<Rightarrow> 'g \<Rightarrow> 'g" where
  "after_passes step loader 0 g = g"
| "after_passes step loader (Suc k) g = after_passes step loader k (snd (forward_pass step loader g))"

text \<open>
  The output of pass number \<open>k\<close> (from zero): a forward pass started in the generator state
  that \<open>k\<close> earlier passes have left. It is a function of that state and the input only.
\<close>

definition pass_output ::
  "('g \<Rightarrow> tensor4 \<Rightarrow> tensor4 \<times> 'g) \<Rightarrow> tensor4 list \<Rightarrow> 'g \<Rightarrow> nat \<Rightarrow> tensor4" where
  "pass_output step loader g k = fst (forward_pass step loader (after_passes step loader k g))"

text \<open>The outputs of the first \<open>k\<close> passes, in order.\<close>

fun passes :: "('g \<Rightarrow> tensor4 \<Rightarrow> tensor4 \<times> 'g) \<Rightarrow> tensor4 list \<Rightarrow> nat \<Rightarrow> 'g \<Rightarrow> tensor4 list" where
  "passes step loader 0 g = []"
| "passes step loader (Suc k) g =
     (case forward_pass step loader g of (out, g') \<Rightarrow> out # passes step loader k g')"

text \<open>
  A prediction step that handles the images of a batch one at a time, each with the
  random draws that follow those of the image before it: \<open>f\<close> is the step on one image.
\<close>

fun per_image :: "('g \<Rightarrow> image \<Rightarrow> image \<times> 'g) \<Rightarrow> 'g \<Rightarrow> tensor4 \<Rightarrow> tensor4 \<times> 'g" where
  "per_image f g [] = ([], g)"
| "per_image f g (x # xs) =
     (case f g x of (y, g') \<Rightarrow>
        (case per_image f g' xs of (ys, g'') \<Rightarrow> (y # ys, g'')))"

text \<open>The index of a pixel that lies inside a tensor.\<close>

definition in_range :: "'a list list list list \<Rightarrow> nat \<Rightarrow> nat \<Rightarrow> nat \<Rightarrow> nat \<Rightarrow> bool" where
  "in_range t f c h w =
     (f < length t \<and> c < length (t ! f) \<and> h < length (t ! f ! c) \<and> w < length (t ! f ! c ! h))"

section \<open>The evaluation notebook\<close>

text \<open>
  \<^verbatim>\<open>
  idx = 0
  ax[0, 0].imshow(low_snr[idx][img_patch], cmap="inferno")
  ax[0, 1].imshow(gt_data[idx][img_patch], cmap="inferno")
  ax[1, 0].imshow(mmse_data[idx][img_patch], cmap="inferno")
  ax[1, 1].imshow(samples_data[0][idx][img_patch], cmap="inferno")
  \<close>
  The notebook \<open>3-evaluation.ipynb\<close> reads the two saved arrays back and shows, beside the
  noisy frame \<open>idx\<close> and its ground truth, the MMSE image and one sample. The two panels that
  read the saved arrays, before the patch is cut out:
\<close>

definition mmse_panel :: "tensor4 \<Rightarrow> int \<Rightarrow> error + image" where
  "mmse_panel mmse_data idx = index0 mmse_data idx"

definition sample_panel :: "tensor5 \<Rightarrow> int \<Rightarrow> error + image" where
  "sample_panel samples_data idx =
     (case index0 samples_data 0 of Inl e \<Rightarrow> Inl e | Inr first \<Rightarrow> index0 first idx)"

section \<open>Normalisation\<close>

text \<open>
  Modelled from the spec: the class \<open>DVLAE\<close>, which holds \<open>data_mean\<close> and \<open>data_std\<close>
  and applies them, is not in the notebooks. The spec says that an image tensor is
  ``normalized by a fixed per-dataset mean/std before being fed to any model, and
  de-normalized on output'': every entry has the mean subtracted and is divided by the
  standard deviation, and the inverse step multiplies by the standard deviation and adds the
  mean. Entries are real numbers, so the equality below is exact where the spec allows a
  floating-point tolerance.
\<close>

definition normalize :: "real \<Rightarrow> real \<Rightarrow> tensor4 \<Rightarrow> tensor4" where
  "normalize data_mean data_std x = map (map (map (map (\<lambda>v. (v - data_mean) / data_std)))) x"

text \<open>
  Modelled from the spec: the de-normalisation of \<open>DVLAE\<close>, missing from the notebooks;
  the inverse affine map of the sentence quoted above.
\<close>

definition denormalize :: "real \<Rightarrow> real \<Rightarrow> tensor4 \<Rightarrow> tensor4" where
  "denormalize data_mean data_std y = map (map (map (map (\<lambda>v. v * data_std + data_mean)))) y"

section \<open>The KL terms of the ladder\<close>

text \<open>
  Modelled from the spec: the package \<open>lvae\<close> is not in the notebooks. The spec asks to
  ``clamp log-variance to a bounded range before exponentiating''; the bounds are not given
  and are the parameters \<open>lo\<close> and \<open>hi\<close>.
\<close>

definition clamp_logvar :: "real \<Rightarrow> real \<Rightarrow> real \<Rightarrow> real" where
  "clamp_logvar lo hi lv = max lo (min hi lv)"

text \<open>
  Modelled from the spec: the KL computation of \<open>lvae\<close>, missing from the notebooks. ``KL
  divergence per level is computed in closed form'' between Gaussians given by a mean and a
  log-variance: for one latent entry with posterior \<open>(mu_q, lv_q)\<close> and prior
  \<open>(mu_p, lv_p)\<close> the closed form is
  \<open>(lv_p - lv_q + (exp lv_q + (mu_q - mu_p)\<^sup>2) / exp lv_p - 1) / 2\<close>.
\<close>

definition kl_gauss :: "real \<Rightarrow> real \<Rightarrow> real \<Rightarrow> real \<Rightarrow> real" where
  "kl_gauss mu_q lv_q mu_p lv_p =
     (lv_p - lv_q + (exp lv_q + (mu_q - mu_p)\<^sup>2) / exp lv_p - 1) / 2"

text \<open>
  Modelled from the spec: the KL term of one level of \<open>lvae\<close>, the sum of the closed form
  over the latent entries of the level, each entry a (mean, log-variance) pair of the
  posterior and one of the prior, with the log-variances clamped.
\<close>

definition kl_level ::
  "real \<Rightarrow> real \<Rightarrow> (real \<times> real) list \<Rightarrow> (real \<times> real) list \<Rightarrow> real" where
  "kl_level lo hi q p =
     sum_list (map2 (\<lambda>(mu_q, lv_q) (mu_p, lv_p).
                  kl_gauss mu_q (clamp_logvar lo hi lv_q) mu_p (clamp_logvar lo hi lv_p)) q p)"

text \<open>
  Modelled from the spec: ``the top-level prior is a fixed standard normal'', mean zero and
  log-variance zero for every latent entry of the coarsest level.
\<close>

definition standard_normal :: "(real \<times> real) list \<Rightarrow> (real \<times> real) list" where
  "standard_normal q = map (\<lambda>_. (0, 0)) q"

text \<open>
  Modelled from the spec: the list of per-level KL terms that the stochastic decode of
  \<open>lvae\<close> returns. The levels are listed from the coarsest; ``every other level's prior is
  parameterized by the decoder path from the coarser level'', so the priors of the levels
  below the top are an input here.
\<close>

fun kl_terms ::
  "real \<Rightarrow> real \<Rightarrow> (real \<times> real) list list \<Rightarrow> (real \<times> real) list list \<Rightarrow> real list" where
  "kl_terms lo hi [] priors = []"
| "kl_terms lo hi (q_top # qs) priors =
     kl_level lo hi q_top (standard_normal q_top) # map2 (kl_level lo hi) qs priors"

section \<open>The autoregressive noise model\<close>

text \<open>
  Modelled from the spec: the package \<open>noise_model\<close> with the class \<open>PixelCNN\<close> is not in
  the notebooks; the training notebook only builds it with \<open>RF_shape="horizontal"\<close>,
  a kernel size, a number of layers and a number of final 1x1 convolutions. The spec says
  the model is ``strictly causal in one spatial direction'', ``enforced via masked/shifted
  convolutions along one axis only'', and conditioned on ``the full signal code''.

  \<open>window pad K row c\<close> is what a kernel of length \<open>K\<close> sees when its last tap is at column
  \<open>c - 1\<close>: the entries of the row at columns \<open>c - K\<close> to \<open>c - 1\<close>, with the padding value
  left of the row.
\<close>

definition window :: "'v \<Rightarrow> nat \<Rightarrow> 'v list \<Rightarrow> nat \<Rightarrow> 'v list" where
  "window pad K row c = map (\<lambda>i. if c + i < K then pad else row ! (c + i - K)) [0 ..< K]"

text \<open>
  Modelled from the spec: the first, shifted convolution of \<open>PixelCNN\<close> on one row of the
  noisy image. The output at column \<open>c\<close> sees the pixels strictly left of \<open>c\<close>. The learned
  weights are the function \<open>k\<close>, which may also use the whole signal code \<open>s\<close> and the
  position.
\<close>

definition shifted_conv ::
  "('c \<Rightarrow> nat \<Rightarrow> nat \<Rightarrow> real list \<Rightarrow> 'v) \<Rightarrow> nat \<Rightarrow> 'c \<Rightarrow> nat \<Rightarrow> real list \<Rightarrow> 'v list" where
  "shifted_conv k K s r row = map (\<lambda>c. k s r c (window 0 K row c)) [0 ..< length row]"

text \<open>
  Modelled from the spec: a later, masked convolution of \<open>PixelCNN\<close> on one row of
  features. The output at column \<open>c\<close> sees the features at columns up to and including \<open>c\<close>.
\<close>

definition causal_conv ::
  "'v \<Rightarrow> nat \<Rightarrow> 'c \<Rightarrow> nat \<Rightarrow> ('c \<Rightarrow> nat \<Rightarrow> nat \<Rightarrow> 'v list \<Rightarrow> 'v) \<Rightarrow> 'v list \<Rightarrow> 'v list" where
  "causal_conv pad K s r k h = map (\<lambda>c. k s r c (window pad K h (Suc c))) [0 ..< length h]"

text \<open>
  Modelled from the spec: the final 1x1 convolutions of \<open>PixelCNN\<close>, composed into one
  function \<open>head\<close> from the feature at a pixel to the mixture parameters at that pixel.
\<close>

definition out_conv :: "('c \<Rightarrow> nat \<Rightarrow> nat \<Rightarrow> 'v \<Rightarrow> 'm) \<Rightarrow> 'c \<Rightarrow> nat \<Rightarrow> 'v list \<Rightarrow> 'm list" where
  "out_conv head s r h = map (\<lambda>c. head s r c (h ! c)) [0 ..< length h]"

text \<open>
  Modelled from the spec: the configuration and weights of a \<open>PixelCNN\<close> with horizontal
  receptive field: the kernel length, the padding value of the feature rows, the weights of
  the shifted convolution, of the masked convolutions (one entry per layer) and of the final
  1x1 convolutions. \<open>'c\<close> is the type of the signal code, \<open>'v\<close> of a feature vector and
  \<open>'m\<close> of the mixture parameters of a pixel.
\<close>

record ('c, 'v, 'm) PixelCNN =
  kernel_size :: nat
  pad_value :: 'v
  first_layer :: "'c \<Rightarrow> nat \<Rightarrow> nat \<Rightarrow> real list \<Rightarrow> 'v"
  layers :: "('c \<Rightarrow> nat \<Rightarrow> nat \<Rightarrow> 'v list \<Rightarrow> 'v) list"
  out_layers :: "'c \<Rightarrow> nat \<Rightarrow> nat \<Rightarrow> 'v \<Rightarrow> 'm"

text \<open>
  Modelled from the spec: the forward pass of \<open>PixelCNN\<close> on row \<open>r\<close> of the noisy image.
  The convolutions run ``along one axis only'', so a row is processed on its own.
\<close>

definition noise_row :: "('c, 'v, 'm) PixelCNN \<Rightarrow> 'c \<Rightarrow> nat \<Rightarrow> real list \<Rightarrow> 'm list" where
  "noise_row net s r row =
     out_conv (out_layers net) s r
       (fold (causal_conv (pad_value net) (kernel_size net) s r) (layers net)
          (shifted_conv (first_layer net) (kernel_size net) s r row))"

text \<open>
  Modelled from the spec: the forward pass of \<open>PixelCNN\<close> on a noisy image and a signal
  code, giving the mixture parameters of every pixel.
\<close>

definition noise_model :: "('c, 'v, 'm) PixelCNN \<Rightarrow> 'c \<Rightarrow> real list list \<Rightarrow> 'm list list" where
  "noise_model net s x = map (\<lambda>r. noise_row net s r (x ! r)) [0 ..< length x]"

text \<open>The noisy image with the pixel at row \<open>r\<close>, column \<open>c\<close> replaced by \<open>v\<close>.\<close>

definition perturb :: "real list list \<Rightarrow> nat \<Rightarrow> nat \<Rightarrow> real \<Rightarrow> real list list" where
  "perturb x r c v = x[r := (x ! r)[c := v]]"

text \<open>Two rows of the same length that agree on their first \<open>n\<close> columns.\<close>

definition agree :: "nat \<Rightarrow> 'a list \<Rightarrow> 'a list \<Rightarrow> bool" where
  "agree n a b = (length a = length b \<and> take n a = take n b)"

section \<open>A small model and input for the examples\<close>

text \<open>
  A stand-in for the network, used where a theorem is applied to a concrete run: the generator
  state is a counter, an image is denoised by adding the counter to every pixel, and the
  counter advances by one per image. The input has three frames of one channel, one row and
  two columns.
\<close>

definition toy_denoise :: "nat \<Rightarrow> image \<Rightarrow> image \<times> nat" where
  "toy_denoise g x = (map (map (map (\<lambda>v. v + real g))) x, Suc g)"

definition toy_step :: "nat \<Rightarrow> tensor4 \<Rightarrow> tensor4 \<times> nat" where
  "toy_step g b = per_image toy_denoise g b"

definition toy_data :: tensor4 where
  "toy_data = [[[[1, 2]]], [[[30, 40]]], [[[500, 600]]]]"

text \<open>
  The two arrays that a run with two samples saves for this model and input, and the counter
  it leaves.
\<close>

definition toy_mmse :: tensor4 where
  "toy_mmse = [[[[5 / 2, 7 / 2]]], [[[65 / 2, 85 / 2]]], [[[1007 / 2, 1207 / 2]]]]"

definition toy_samples :: tensor5 where
  "toy_samples =
     [[[[[1, 2]]], [[[4, 5]]]],
      [[[[31, 41]]], [[[34, 44]]]],
      [[[[502, 602]]], [[[505, 605]]]]]"

text \<open>
  A second stand-in, for a network in which every level of the ladder draws for the whole
  batch at once, as \<open>torch.randn\<close> on a batch tensor does. The generator is a counter and the
  draw at position \<open>k\<close> has the value \<open>k\<close>. For a batch of \<open>n\<close> images the first level takes
  the next \<open>n\<close> draws, one per image, and the second level the \<open>n\<close> draws after them; an
  image is denoised by adding ten times its first draw and once its second draw to every
  pixel. The output has the shape of the batch.
\<close>

definition two_level_step :: "nat \<Rightarrow> tensor4 \<Rightarrow> tensor4 \<times> nat" where
  "two_level_step g b =
     (map (\<lambda>(i, x). map (map (map (\<lambda>v. v + 10 * real (g + i) + real (g + length b + i)))) x)
        (zip [0 ..< length b] b),
      g + 2 * length b)"

text \<open>
  A noise model with kernel length two and one masked layer, whose kernels add up what they
  see and whose head doubles the feature; the signal code is not used.
\<close>

definition toy_net :: "(unit, real, real) PixelCNN" where
  "toy_net = \<lparr>kernel_size = 2, pad_value = 0,
     first_layer = (\<lambda>s r c w. sum_list w),
     layers = [\<lambda>s r c w. sum_list w],
     out_layers = (\<lambda>s r c v. 2 * v)\<rparr>"

definition toy_noisy :: "real list list" where
  "toy_noisy = [[1, 2, 3, 4], [5, 6, 7, 8]]"

section \<open>Properties of the training dataset\<close>

lemma block_count:
  assumes "j < n"
  shows "length (filter (\<lambda>i. int i mod int n = int j) [m * n ..< m * n + n]) = 1"
proof -
  have eq: "[m * n ..< m * n + n] = map (\<lambda>i. i + m * n) [0 ..< n]"
    by (simp add: map_add_upt add.commute)
  have "filter (\<lambda>i. int i mod int n = int j) (map (\<lambda>i. i + m * n) [0 ..< n])
        = map (\<lambda>i. i + m * n) (filter (\<lambda>i. i = j) [0 ..< n])"
    unfolding filter_map
  proof (rule arg_cong[where f = "map (\<lambda>i. i + m * n)"], rule filter_cong[OF refl])
    fix i assume "i \<in> set [0 ..< n]"
    then have "i < n" by simp
    have "int (i + m * n) mod int n = int ((i + m * n) mod n)"
      by (simp add: zmod_int)
    also have "\<dots> = int i" using \<open>i < n\<close> by simp
    finally show "((\<lambda>i. int i mod int n = int j) \<circ> (\<lambda>i. i + m * n)) i = (i = j)"
      by simp
  qed
  moreover have "filter (\<lambda>i. i = j) [0 ..< n] = [j]"
    using assms by (induction n) auto
  ultimately show ?thesis using eq by simp
qed

lemma served_count:
  assumes "j < n"
  shows "length (filter (\<lambda>i. int i mod int n = int j) [0 ..< n * k]) = k"
proof (induction k)
  case 0
  then show ?case by simp
next
  case (Suc k)
  have "[0 ..< n * Suc k] = [0 ..< k * n] @ [k * n ..< k * n + n]"
    by (metis add.commute le_add2 mult.commute mult_Suc_right upt_add_eq_append add_0)
  then show ?case
    using Suc block_count[OF assms, of k] by (simp add: mult.commute)
qed

lemma getitem_in_range:
  assumes "0 \<le> idx" and "idx < len_dataset (init_dataset imgs k tr)"
  shows "nat (idx mod int (length imgs)) < length imgs"
    and "getitem (init_dataset imgs k tr) idx g =
           (case tr of
              None \<Rightarrow> Inr (imgs ! nat (idx mod int (length imgs)), g)
            | Some t \<Rightarrow> t g (imgs ! nat (idx mod int (length imgs))))"
proof -
  have pos: "0 < int (length imgs)"
  proof (rule ccontr)
    assume "\<not> 0 < int (length imgs)"
    then have "length imgs = 0" by simp
    with assms show False by (simp add: len_dataset_def init_dataset_def)
  qed
  then have lo: "0 \<le> idx mod int (length imgs)"
    and hi: "idx mod int (length imgs) < int (length imgs)"
    by simp_all
  from lo hi show "nat (idx mod int (length imgs)) < length imgs" by linarith
  from lo have nl: "\<not> idx mod int (length imgs) < 0" by simp
  from pos lo hi nl show "getitem (init_dataset imgs k tr) idx g =
           (case tr of
              None \<Rightarrow> Inr (imgs ! nat (idx mod int (length imgs)), g)
            | Some t \<Rightarrow> t g (imgs ! nat (idx mod int (length imgs))))"
    by (simp add: getitem_def init_dataset_def py_mod_def index0_def Let_def)
qed

lemma served_init:
  assumes "0 \<le> k" and "j < length imgs"
  shows "served (init_dataset imgs k tr) j = nat k"
proof -
  have "nat (int (length imgs) * k) = length imgs * nat k"
    using assms(1) by (simp add: nat_mult_distrib)
  then have "served (init_dataset imgs k tr) j
      = length (filter (\<lambda>i. int i mod int (length imgs) = int j) [0 ..< length imgs * nat k])"
    by (simp add: served_def epoch_def len_dataset_def init_dataset_def filter_map comp_def)
  then show ?thesis using served_count[OF assms(2), of "nat k"] by simp
qed

text \<open>
  Claim C9. A dataset built from \<open>imgs\<close> with repetition factor \<open>k\<close> reports the length
  \<open>length imgs * k\<close>. For every index \<open>idx\<close> with \<open>0 \<le> idx < length imgs * k\<close>, the position
  \<open>idx mod length imgs\<close> is inside the images and \<open>__getitem__\<close> raises neither
  ZeroDivisionError nor IndexError: it returns the image at that position, passed through the
  transform when there is one. When \<open>k\<close> is not negative, one epoch reads every image
  exactly \<open>k\<close> times.
\<close>

theorem dataset_len_getitem_served:
  "len_dataset (init_dataset imgs k tr) = int (length imgs) * k \<and>
   (\<forall>idx. 0 \<le> idx \<and> idx < len_dataset (init_dataset imgs k tr) \<longrightarrow>
      nat (idx mod int (length imgs)) < length imgs \<and>
      getitem (init_dataset imgs k tr) idx g =
        (case tr of
           None \<Rightarrow> Inr (imgs ! nat (idx mod int (length imgs)), g)
         | Some t \<Rightarrow> t g (imgs ! nat (idx mod int (length imgs))))) \<and>
   (0 \<le> k \<longrightarrow> (\<forall>j < length imgs. served (init_dataset imgs k tr) j = nat k))"
proof (intro conjI allI impI)
  show "len_dataset (init_dataset imgs k tr) = int (length imgs) * k"
    by (simp add: len_dataset_def init_dataset_def)
next
  fix idx assume "0 \<le> idx \<and> idx < len_dataset (init_dataset imgs k tr)"
  then show "nat (idx mod int (length imgs)) < length imgs"
    by (simp add: getitem_in_range(1)[of idx imgs k tr])
next
  fix idx assume "0 \<le> idx \<and> idx < len_dataset (init_dataset imgs k tr)"
  then show "getitem (init_dataset imgs k tr) idx g =
        (case tr of
           None \<Rightarrow> Inr (imgs ! nat (idx mod int (length imgs)), g)
         | Some t \<Rightarrow> t g (imgs ! nat (idx mod int (length imgs))))"
    by (simp add: getitem_in_range(2)[of idx imgs k tr g])
next
  fix j assume "0 \<le> k" and "j < length imgs"
  then show "served (init_dataset imgs k tr) j = nat k"
    by (rule served_init)
qed

theorem dataset_len_getitem_served_witness:
  "len_dataset (init_dataset [10, 20, 30 :: nat] 2 (None :: (unit \<Rightarrow> nat \<Rightarrow> error + nat \<times> unit) option)) = 6 \<and>
   (0::int) \<le> 4 \<and> 4 < len_dataset (init_dataset [10, 20, 30 :: nat] 2 (None :: (unit \<Rightarrow> nat \<Rightarrow> error + nat \<times> unit) option)) \<and>
   getitem (init_dataset [10, 20, 30 :: nat] 2 (None :: (unit \<Rightarrow> nat \<Rightarrow> error + nat \<times> unit) option)) 4 () = Inr (20, ()) \<and>
   (0::int) \<le> 2 \<and> (1::nat) < length [10, 20, 30 :: nat] \<and>
   served (init_dataset [10, 20, 30 :: nat] 2 (None :: (unit \<Rightarrow> nat \<Rightarrow> error + nat \<times> unit) option)) 1 = 2"
proof -
  note t = dataset_len_getitem_served [of "[10, 20, 30 :: nat]" 2 None "()"]
  have len: "len_dataset (init_dataset [10, 20, 30 :: nat] 2 (None :: (unit \<Rightarrow> nat \<Rightarrow> error + nat \<times> unit) option)) = 6"
    using t [THEN conjunct1] by simp
  have get: "getitem (init_dataset [10, 20, 30 :: nat] 2 (None :: (unit \<Rightarrow> nat \<Rightarrow> error + nat \<times> unit) option)) 4 () = Inr (20, ())"
    using t [THEN conjunct2, THEN conjunct1, rule_format, of 4] len by simp
  have srv: "served (init_dataset [10, 20, 30 :: nat] 2 (None :: (unit \<Rightarrow> nat \<Rightarrow> error + nat \<times> unit) option)) 1 = 2"
    using t [THEN conjunct2, THEN conjunct2, rule_format, of 1] by simp
  from len get srv show ?thesis by simp
qed

section \<open>Shapes and entrywise operations\<close>

lemma map_eq_nth: "map p xs = map q ys \<Longrightarrow> i < length xs \<Longrightarrow> p (xs ! i) = q (ys ! i)"
  by (metis length_map nth_map)

lemma shape4_length: "shape4 a = shape4 b \<Longrightarrow> length a = length b"
  unfolding shape4_def by (rule map_eq_imp_length_eq)

lemma shape4_lengths:
  assumes "shape4 a = shape4 b" and "in_range a f c h w"
  shows "length a = length b"
    and "length (a ! f) = length (b ! f)"
    and "length (a ! f ! c) = length (b ! f ! c)"
    and "length (a ! f ! c ! h) = length (b ! f ! c ! h)"
proof -
  from assms(2) have r: "f < length a" "c < length (a ! f)" "h < length (a ! f ! c)"
    by (simp_all add: in_range_def)
  show "length a = length b" using assms(1) by (rule shape4_length)
  have s3: "shape3 (a ! f) = shape3 (b ! f)"
    using assms(1) r(1) unfolding shape4_def by (rule map_eq_nth)
  then show "length (a ! f) = length (b ! f)"
    unfolding shape3_def by (rule map_eq_imp_length_eq)
  have s2: "map length (a ! f ! c) = map length (b ! f ! c)"
    using s3 r(2) unfolding shape3_def by (rule map_eq_nth)
  then show "length (a ! f ! c) = length (b ! f ! c)"
    by (rule map_eq_imp_length_eq)
  show "length (a ! f ! c ! h) = length (b ! f ! c ! h)"
    using s2 r(3) by (rule map_eq_nth)
qed

lemma in_range_shape4:
  assumes "shape4 a = shape4 b" and "in_range a f c h w"
  shows "in_range b f c h w"
  using assms(2) shape4_lengths[OF assms] by (simp add: in_range_def)

lemma nth_map2_eq:
  "length xs = length ys \<Longrightarrow> i < length xs \<Longrightarrow> map2 p xs ys ! i = p (xs ! i) (ys ! i)"
  by simp

lemma pixel_add:
  assumes "shape4 a = shape4 b" and "in_range a f c h w"
  shows "map2 (map2 (map2 (map2 (+)))) a b ! f ! c ! h ! w
         = a ! f ! c ! h ! w + b ! f ! c ! h ! (w::nat)"
proof -
  note l = shape4_lengths[OF assms]
  from assms(2) have r: "f < length a" "c < length (a ! f)" "h < length (a ! f ! c)"
    "w < length (a ! f ! c ! h)"
    by (simp_all add: in_range_def)
  show ?thesis
    by (simp only: nth_map2_eq[OF l(1) r(1)] nth_map2_eq[OF l(2) r(2)]
        nth_map2_eq[OF l(3) r(3)] nth_map2_eq[OF l(4) r(4)])
qed

lemma map_map2_same:
  assumes "map sh a = map sh b"
    and "\<And>x y. sh x = sh y \<Longrightarrow> sh (p x y) = sh x"
  shows "map sh (map2 p a b) = map sh a"
proof -
  have "length a = length b" using assms(1) by (rule map_eq_imp_length_eq)
  then show ?thesis using assms(1)
    by (induction a b rule: list_induct2) (simp_all add: assms(2))
qed

lemma shape3_add:
  assumes "shape3 x = shape3 y"
  shows "shape3 (map2 (map2 (map2 (+))) x y) = shape3 (x :: real list list list)"
  using assms unfolding shape3_def
  by (rule map_map2_same) (rule map_map2_same, assumption, simp)

lemma shape4_add:
  assumes "shape4 a = shape4 b"
  shows "shape4 (map2 (map2 (map2 (map2 (+)))) a b) = shape4 (a :: tensor4)"
  using assms unfolding shape4_def
  by (rule map_map2_same) (rule shape3_add)

lemma shape4_zeros_like: "shape4 (zeros_like t) = shape4 t"
  by (simp add: shape4_def shape3_def zeros_like_def comp_def)

lemma pixel_zeros_like: "in_range t f c h w \<Longrightarrow> zeros_like t ! f ! c ! h ! w = 0"
  by (simp add: in_range_def zeros_like_def)

lemma shape4_true_divide: "shape4 (true_divide t n) = shape4 t"
  by (simp add: shape4_def shape3_def true_divide_def comp_def)

lemma pixel_true_divide:
  "in_range t f c h w \<Longrightarrow> true_divide t n ! f ! c ! h ! w = t ! f ! c ! h ! w / real_of_int n"
  by (simp add: in_range_def true_divide_def)


lemma sequence_map_Inr: "sequence (map (\<lambda>x. Inr (p x)) xs) = Inr (map p xs)"
  by (induction xs) simp_all

lemma zip_same_image:
  assumes "map sh a = map sh b" and "(x, y) \<in> set (zip a b)"
  shows "sh x = sh y"
proof -
  from assms(2) obtain i where i: "i < length a" "i < length b" "x = a ! i" "y = b ! i"
    by (auto simp add: set_zip)
  from assms(1) i(1) have "sh (a ! i) = sh (b ! i)" by (rule map_eq_nth)
  with i show ?thesis by simp
qed

lemma broadcast2_same_shape:
  assumes "map sh a = map sh b" and "\<And>x y. sh x = sh y \<Longrightarrow> f x y = Inr (p x y)"
  shows "broadcast2 f a b = Inr (map2 p a b)"
proof -
  have len: "length a = length b" using assms(1) by (rule map_eq_imp_length_eq)
  have "map2 f a b = map (\<lambda>xy. Inr (case xy of (x, y) \<Rightarrow> p x y)) (zip a b)"
  proof (rule map_cong[OF refl])
    fix xy assume xy: "xy \<in> set (zip a b)"
    obtain x y where e: "xy = (x, y)" by (cases xy)
    with xy have "sh x = sh y" using zip_same_image[OF assms(1)] by simp
    then have "f x y = Inr (p x y)" by (rule assms(2))
    with e show "(case xy of (x, y) \<Rightarrow> f x y) = Inr (case xy of (x, y) \<Rightarrow> p x y)" by simp
  qed
  then have "sequence (map2 f a b) = Inr (map2 p a b)"
    by (simp only: sequence_map_Inr)
  with len show ?thesis by (simp add: broadcast2_def)
qed

lemma iadd_same_shape:
  assumes "shape4 a = shape4 b"
  shows "iadd a b = Inr (map2 (map2 (map2 (map2 (+)))) a b)"
proof -
  have rows: "broadcast2 (\<lambda>x y. Inr (x + y)) r s = Inr (map2 (+) r s)"
    if "length r = length s" for r s :: "real list"
  proof (rule broadcast2_same_shape[where sh = "\<lambda>_. ()"])
    show "map (\<lambda>_. ()) r = map (\<lambda>_. ()) s" using that by (simp add: map_replicate_const)
  qed simp
  have chans: "broadcast2 (broadcast2 (\<lambda>x y. Inr (x + y))) u v = Inr (map2 (map2 (+)) u v)"
    if "map length u = map length v" for u v :: "real list list"
    using that by (rule broadcast2_same_shape) (rule rows)
  have imgs: "broadcast2 (broadcast2 (broadcast2 (\<lambda>x y. Inr (x + y)))) x y
               = Inr (map2 (map2 (map2 (+))) x y)"
    if "shape3 x = shape3 y" for x y :: image
    using that unfolding shape3_def by (rule broadcast2_same_shape) (rule chans)
  show ?thesis
    unfolding iadd_def using assms unfolding shape4_def
    by (rule broadcast2_same_shape) (rule imgs)
qed

lemma cat0_Inr: "cat0 ts = Inr t \<Longrightarrow> ts \<noteq> [] \<and> frames_agree t \<and> t = concat ts"
  by (auto simp add: cat0_def split: if_splits)

lemma foldl_forward:
  "foldl (\<lambda>(out, g) b. case step g b of (y, g') \<Rightarrow> (out @ y, g')) (acc, g) L
   = (acc @ concat (fst (predict step g L)), snd (predict step g L))"
proof (induction L arbitrary: acc g)
  case Nil
  then show ?case by simp
next
  case (Cons b L)
  obtain y g1 where s: "step g b = (y, g1)" by (cases "step g b")
  obtain ys g2 where p: "predict step g1 L = (ys, g2)" by (cases "predict step g1 L")
  show ?case using Cons[of "acc @ y" g1] s p by simp
qed

lemma predict_forward_pass:
  "predict step g L = (outs, g') \<Longrightarrow> forward_pass step L g = (concat outs, g')"
  unfolding forward_pass_def by (simp add: foldl_forward)

lemma length_passes: "length (passes step loader k g) = k"
  by (induction k arbitrary: g) (auto split: prod.splits)


lemma batches_Nil: "batches k [] = []"
  by (subst batches.simps) simp

lemma batches_step:
  "0 < k \<Longrightarrow> xs \<noteq> [] \<Longrightarrow> batches k xs = take k xs # batches k (drop k xs)"
  by (subst batches.simps) simp

lemma concat_batches: "0 < k \<Longrightarrow> concat (batches k xs) = xs"
proof (induction k xs rule: batches.induct)
  case (1 bs xs)
  show ?case
  proof (cases "xs = []")
    case True
    then show ?thesis by (simp add: batches_Nil)
  next
    case False
    with 1 have "concat (batches bs (drop bs xs)) = drop bs xs" by simp
    with False 1(2) show ?thesis by (simp add: batches_step)
  qed
qed

lemma batches_empty_iff: "0 < k \<Longrightarrow> batches k xs = [] \<longleftrightarrow> xs = []"
  by (subst batches.simps) simp

lemma shape4_append: "shape4 (a @ b) = shape4 a @ shape4 b"
  by (simp add: shape4_def)

lemma predict_empty_iff: "fst (predict step g bs) = [] \<longleftrightarrow> bs = []"
  by (cases bs) (auto split: prod.splits)


lemma forward_pass_shape:
  assumes "\<And>g b. shape4 (fst (step g b)) = shape4 b"
  shows "shape4 (fst (forward_pass step L g)) = shape4 (concat L)"
proof -
  have "shape4 (concat (fst (predict step g L))) = shape4 (concat L)" for g
  proof (induction L arbitrary: g)
    case Nil
    then show ?case by simp
  next
    case (Cons b L)
    obtain y g1 where s: "step g b = (y, g1)" by (cases "step g b")
    obtain ys g2 where p: "predict step g1 L = (ys, g2)" by (cases "predict step g1 L")
    have "shape4 y = shape4 b" using assms[of g b] s by simp
    moreover have "shape4 (concat ys) = shape4 (concat L)" using Cons[of g1] p by simp
    ultimately show ?case using s p by (simp add: shape4_append)
  qed
  moreover have "fst (forward_pass step L g) = concat (fst (predict step g L))"
    using predict_forward_pass[of step g L] by (cases "predict step g L") simp
  ultimately show ?thesis by simp
qed

lemma frames_agree_shape4:
  assumes "shape4 a = shape4 b"
  shows "frames_agree a = frames_agree b"
proof (cases a)
  case Nil
  with assms have "b = []" by (simp add: shape4_def)
  with Nil show ?thesis by (simp add: frames_agree_def)
next
  case (Cons x xs)
  with assms obtain y ys where b: "b = y # ys" by (cases b) (simp_all add: shape4_def)
  have "frames_agree a = list_all (\<lambda>s. s = hd (shape4 a)) (shape4 a)"
    using Cons by (simp add: frames_agree_def shape4_def list_all_iff)
  moreover have "frames_agree b = list_all (\<lambda>s. s = hd (shape4 b)) (shape4 b)"
    using b by (simp add: frames_agree_def shape4_def list_all_iff)
  ultimately show ?thesis using assms by simp
qed


lemma sample_loop_run:
  assumes "loader \<noteq> []"
    and "\<And>g. frames_agree (fst (forward_pass step loader g))"
    and "\<And>g. shape4 (fst (forward_pass step loader g)) = shape4 mm"
  shows "\<exists>mm'. sample_loop step loader k (ss, mm, g)
                 = Inr (ss @ passes step loader k g, mm', after_passes step loader k g)
           \<and> shape4 mm' = shape4 mm
           \<and> (\<forall>f c h w. in_range mm f c h w \<longrightarrow>
                 mm' ! f ! c ! h ! w
                 = mm ! f ! c ! h ! w + (\<Sum>i<k. passes step loader k g ! i ! f ! c ! h ! w))"
  using assms(3)
proof (induction k arbitrary: ss mm g)
  case 0
  then show ?case by simp
next
  case (Suc k)
  obtain outs g1 where p: "predict step g loader = (outs, g1)"
    by (cases "predict step g loader")
  from predict_forward_pass[OF p] have fp: "forward_pass step loader g = (concat outs, g1)" .
  have ne: "outs \<noteq> []" using predict_empty_iff[of step g loader] p assms(1) by simp
  have c: "cat0 outs = Inr (concat outs)"
    using ne assms(2)[of g] fp by (simp add: cat0_def)
  have sh: "shape4 mm = shape4 (concat outs)" using Suc.prems[of g] fp by simp
  let ?mm1 = "map2 (map2 (map2 (map2 (+)))) mm (concat outs)"
  have a: "iadd mm (concat outs) = Inr ?mm1" using sh by (rule iadd_same_shape)
  have sh1: "shape4 ?mm1 = shape4 mm" using sh by (rule shape4_add)
  then have "\<And>g. shape4 (fst (forward_pass step loader g)) = shape4 ?mm1"
    using Suc.prems by simp
  from Suc.IH[OF this, of "ss @ [concat outs]" g1] obtain mm' where
    run: "sample_loop step loader k (ss @ [concat outs], ?mm1, g1)
            = Inr ((ss @ [concat outs]) @ passes step loader k g1, mm', after_passes step loader k g1)"
    and shm: "shape4 mm' = shape4 ?mm1"
    and pix: "\<And>f c h w. in_range ?mm1 f c h w \<Longrightarrow>
                 mm' ! f ! c ! h ! w
                 = ?mm1 ! f ! c ! h ! w + (\<Sum>i<k. passes step loader k g1 ! i ! f ! c ! h ! w)"
    by blast
  have ps: "passes step loader (Suc k) g = concat outs # passes step loader k g1"
    using fp by simp
  have ap: "after_passes step loader (Suc k) g = after_passes step loader k g1"
    using fp by simp
  have r1: "sample_loop step loader (Suc k) (ss, mm, g)
            = Inr (ss @ passes step loader (Suc k) g, mm', after_passes step loader (Suc k) g)"
    using p c a run by (simp add: fp)
  have r2: "shape4 mm' = shape4 mm" using shm sh1 by simp
  have r3: "\<forall>f c h w. in_range mm f c h w \<longrightarrow>
               mm' ! f ! c ! h ! w
               = mm ! f ! c ! h ! w + (\<Sum>i<Suc k. passes step loader (Suc k) g ! i ! f ! c ! h ! w)"
  proof (intro allI impI)
    fix f c h w assume r: "in_range mm f c h w"
    have r1: "in_range ?mm1 f c h w" using sh1[symmetric] r by (rule in_range_shape4)
    have "mm' ! f ! c ! h ! w = ?mm1 ! f ! c ! h ! w + (\<Sum>i<k. passes step loader k g1 ! i ! f ! c ! h ! w)"
      using r1 by (rule pix)
    moreover have "?mm1 ! f ! c ! h ! w = mm ! f ! c ! h ! w + concat outs ! f ! c ! h ! w"
      using sh r by (rule pixel_add)
    moreover have "(\<Sum>i<Suc k. passes step loader (Suc k) g ! i ! f ! c ! h ! w)
        = concat outs ! f ! c ! h ! w + (\<Sum>i<k. passes step loader k g1 ! i ! f ! c ! h ! w)"
      unfolding ps by (subst sum.lessThan_Suc_shift) simp
    ultimately show "mm' ! f ! c ! h ! w
               = mm ! f ! c ! h ! w + (\<Sum>i<Suc k. passes step loader (Suc k) g ! i ! f ! c ! h ! w)"
      by simp
  qed
  from r1 r2 r3 show ?case by blast
qed

lemma moveaxis_nth:
  assumes "P \<noteq> []" and "list_all (\<lambda>t. length t = F) P"
  shows "length (moveaxis_1_0 P) = F"
    and "f < F \<Longrightarrow> moveaxis_1_0 P ! f = map (\<lambda>s. s ! f) P"
proof -
  from assms obtain t ts where P: "P = t # ts" and t: "length t = F"
    by (cases P) simp_all
  show "length (moveaxis_1_0 P) = F" using P t by simp
  show "f < F \<Longrightarrow> moveaxis_1_0 P ! f = map (\<lambda>s. s ! f) P" using P t by simp
qed

lemma stack0_Inr: "stack0 ts = Inr st \<Longrightarrow> ts \<noteq> [] \<and> st = ts"
  by (auto simp add: stack0_def split: if_splits)

lemma stack0_same:
  "ts \<noteq> [] \<Longrightarrow> list_all (\<lambda>t. shape4 t = s) ts \<Longrightarrow> stack0 ts = Inr ts"
  by (cases ts) (auto simp add: stack0_def list_all_iff)

lemma shape4_nth: "shape4 a = shape4 b \<Longrightarrow> f < length a \<Longrightarrow> shape3 (a ! f) = shape3 (b ! f)"
  unfolding shape4_def by (rule map_eq_nth)

lemma passes_shapes:
  assumes "\<And>g b. shape4 (fst (step g b)) = shape4 b" and "0 < k"
  shows "list_all (\<lambda>t. shape4 t = shape4 td) (passes step (batches k td) m g)"
proof (induction m arbitrary: g)
  case 0
  then show ?case by simp
next
  case (Suc m)
  obtain out g1 where f: "forward_pass step (batches k td) g = (out, g1)"
    by (cases "forward_pass step (batches k td) g")
  have "shape4 (fst (forward_pass step (batches k td) g)) = shape4 (concat (batches k td))"
    using assms(1) by (rule forward_pass_shape)
  then have "shape4 out = shape4 td" using f assms(2) by (simp add: concat_batches)
  then show ?case using f Suc[of g1] by simp
qed

lemma inference_run:
  assumes "0 < bs" and "0 < n" and "td \<noteq> []" and "frames_agree td"
    and "\<And>g b. shape4 (fst (step g b)) = shape4 b"
  shows "\<exists>mmse. inference step bs n td g
                  = Inr (mmse, moveaxis_1_0 (passes step (batches (nat bs) td) (nat n) g),
                         after_passes step (batches (nat bs) td) (nat n) g)
           \<and> shape4 mmse = shape4 td
           \<and> (\<forall>f c h w. in_range td f c h w \<longrightarrow>
                 mmse ! f ! c ! h ! w
                 = (\<Sum>i<nat n. passes step (batches (nat bs) td) (nat n) g ! i ! f ! c ! h ! w)
                   / real_of_int n)"
proof -
  let ?L = "batches (nat bs) td"
  let ?P = "passes step ?L (nat n) g"
  have k: "0 < nat bs" using assms(1) by simp
  have ne: "?L \<noteq> []" using assms(3) k by (simp add: batches_empty_iff)
  have sh: "\<And>g. shape4 (fst (forward_pass step ?L g)) = shape4 (zeros_like td)"
    using forward_pass_shape[of step ?L, OF assms(5)] k
    by (simp add: concat_batches shape4_zeros_like)
  have fa: "\<And>g. frames_agree (fst (forward_pass step ?L g))"
    using frames_agree_shape4[OF sh] frames_agree_shape4[OF shape4_zeros_like[of td]] assms(4)
    by simp
  from sample_loop_run[of ?L step "zeros_like td" "nat n" "[]" g, OF ne fa sh]
  obtain mm where
    loop: "sample_loop step ?L (nat n) ([], zeros_like td, g)
             = Inr (?P, mm, after_passes step ?L (nat n) g)"
    and shm: "shape4 mm = shape4 (zeros_like td)"
    and pix: "\<And>f c h w. in_range (zeros_like td) f c h w \<Longrightarrow>
                 mm ! f ! c ! h ! w
                 = zeros_like td ! f ! c ! h ! w + (\<Sum>i<nat n. ?P ! i ! f ! c ! h ! w)"
    by auto
  have "?P \<noteq> []"
  proof
    assume "?P = []"
    then have "length ?P = 0" by simp
    with assms(2) show False by (simp add: length_passes)
  qed
  moreover have "list_all (\<lambda>t. shape4 t = shape4 td) ?P"
    using assms(5) k by (rule passes_shapes)
  ultimately have st: "stack0 ?P = Inr ?P" by (rule stack0_same)
  have res: "inference step bs n td g
          = Inr (true_divide mm n, moveaxis_1_0 ?P, after_passes step ?L (nat n) g)"
    using assms(1) loop st by (simp add: inference_def DataLoader_def)
  have shmm: "shape4 mm = shape4 td" using shm by (simp add: shape4_zeros_like)
  have s2: "shape4 (true_divide mm n) = shape4 td"
    using shmm by (simp add: shape4_true_divide)
  have p2: "\<forall>f c h w. in_range td f c h w \<longrightarrow>
                 true_divide mm n ! f ! c ! h ! w
                 = (\<Sum>i<nat n. ?P ! i ! f ! c ! h ! w) / real_of_int n"
  proof (intro allI impI)
    fix f c h w assume r: "in_range td f c h w"
    have rz: "in_range (zeros_like td) f c h w"
      using shape4_zeros_like[symmetric] r by (rule in_range_shape4)
    have rm: "in_range mm f c h w"
      using shmm[symmetric] r by (rule in_range_shape4)
    have "mm ! f ! c ! h ! w = zeros_like td ! f ! c ! h ! w + (\<Sum>i<nat n. ?P ! i ! f ! c ! h ! w)"
      using rz by (rule pix)
    then have "mm ! f ! c ! h ! w = (\<Sum>i<nat n. ?P ! i ! f ! c ! h ! w)"
      using r by (simp add: pixel_zeros_like)
    then show "true_divide mm n ! f ! c ! h ! w
                 = (\<Sum>i<nat n. ?P ! i ! f ! c ! h ! w) / real_of_int n"
      using rm by (simp add: pixel_true_divide)
  qed
  from res s2 p2 show ?thesis by (intro exI conjI)
qed

lemma inference_Inr_hyps:
  assumes "inference step bs n td g = Inr r"
    and "\<And>g b. shape4 (fst (step g b)) = shape4 b"
  shows "0 < bs" and "0 < n" and "td \<noteq> []" and "frames_agree td"
proof -
  let ?L = "batches (nat bs) td"
  show bs: "0 < bs"
  proof (rule ccontr)
    assume "\<not> 0 < bs"
    then have "inference step bs n td g = Inl ValueError"
      by (simp add: inference_def DataLoader_def)
    with assms(1) show False by simp
  qed
  then have inf: "inference step bs n td g =
      (case sample_loop step ?L (nat n) ([], zeros_like td, g) of
         Inl e \<Rightarrow> Inl e
       | Inr (samples, MMSEs, g') \<Rightarrow>
           (case stack0 samples of
              Inl e \<Rightarrow> Inl e
            | Inr stacked \<Rightarrow> Inr (true_divide MMSEs n, moveaxis_1_0 stacked, g')))"
    by (simp add: inference_def DataLoader_def)
  show n: "0 < n"
  proof (rule ccontr)
    assume "\<not> 0 < n"
    then have "nat n = 0" by simp
    then have "inference step bs n td g = Inl RuntimeError"
      by (simp add: inf stack0_def)
    with assms(1) show False by simp
  qed
  then obtain k where k: "nat n = Suc k" by (cases "nat n") auto
  obtain outs g1 where p: "predict step g ?L = (outs, g1)"
    by (cases "predict step g ?L")
  obtain out where c: "cat0 outs = Inr out"
    using assms(1) by (cases "cat0 outs") (auto simp add: inf k p)
  from cat0_Inr[OF c] have ne: "outs \<noteq> []" and fa: "frames_agree (concat outs)" by auto
  have "?L \<noteq> []" using predict_empty_iff[of step g ?L] p ne by simp
  then show "td \<noteq> []" by (auto simp add: batches_Nil)
  have "shape4 (fst (forward_pass step ?L g)) = shape4 (concat ?L)"
    using assms(2) by (rule forward_pass_shape)
  then have "shape4 (concat outs) = shape4 td"
    using predict_forward_pass[OF p] bs by (simp add: concat_batches)
  from frames_agree_shape4[OF this] fa show "frames_agree td" by simp
qed


lemma toy_step_shape: "shape4 (fst (toy_step g b)) = shape4 b"
proof (induction b arbitrary: g)
  case Nil
  then show ?case by (simp add: toy_step_def)
next
  case (Cons x xs)
  obtain ys g2 where p: "per_image toy_denoise (Suc g) xs = (ys, g2)"
    by (cases "per_image toy_denoise (Suc g) xs")
  have "shape3 (map (map (map (\<lambda>v. v + real g))) x) = shape3 x"
    by (simp add: shape3_def comp_def)
  moreover have "shape4 ys = shape4 xs" using Cons[of "Suc g"] p by (simp add: toy_step_def)
  ultimately show ?case using p
    by (simp add: toy_step_def shape4_def toy_denoise_def)
qed

section \<open>The saved arrays\<close>

lemma toy_run: "inference toy_step 2 2 toy_data 0 = Inr (toy_mmse, toy_samples, 6)"
  by code_simp

text \<open>
  Claim C2, on a run with two samples over three frames. The saved samples array has the
  frames on its first axis (length three) and the samples on its second (length two):
  \<open>torch.stack\<close> puts the samples first and \<open>torch.moveaxis(samples, 1, 0)\<close> then moves
  the frame axis in front. The evaluation notebook reads the array as \<open>[sample][frame]\<close>:
  for frame 1 it shows the MMSE image of frame 1 beside \<open>samples_data[0][1]\<close>, which in the
  saved array is the second sample of frame 0, and for frame 2 it raises IndexError although
  frame 2 has two samples.
\<close>

theorem saved_samples_frames_first:
  "inference toy_step 2 2 toy_data 0 = Inr (toy_mmse, toy_samples, 6) \<and>
   length toy_data = 3 \<and>
   length toy_samples = 3 \<and>
   map length toy_samples = [2, 2, 2] \<and>
   toy_samples ! 0 = [pass_output toy_step (batches 2 toy_data) 0 0 ! 0,
                      pass_output toy_step (batches 2 toy_data) 0 1 ! 0] \<and>
   mmse_panel toy_mmse 1 = Inr (toy_mmse ! 1) \<and>
   sample_panel toy_samples 1 = Inr (toy_samples ! 0 ! 1) \<and>
   toy_samples ! 0 ! 1 \<noteq> toy_samples ! 1 ! 0 \<and>
   toy_samples ! 0 ! 1 \<noteq> toy_samples ! 1 ! 1 \<and>
   mmse_panel toy_mmse 2 = Inr (toy_mmse ! 2) \<and>
   sample_panel toy_samples 2 = Inl IndexError"
proof -
  have a: "length toy_data = 3" by (simp add: toy_data_def)
  have b: "length toy_samples = 3" by (simp add: toy_samples_def)
  have c: "map length toy_samples = [2, 2, 2]" by (simp add: toy_samples_def)
  have d: "toy_samples ! 0 = [pass_output toy_step (batches 2 toy_data) 0 0 ! 0,
                      pass_output toy_step (batches 2 toy_data) 0 1 ! 0]"
    by code_simp
  have e: "mmse_panel toy_mmse 1 = Inr (toy_mmse ! 1)" by code_simp
  have f: "sample_panel toy_samples 1 = Inr (toy_samples ! 0 ! 1)" by code_simp
  have g: "toy_samples ! 0 ! 1 \<noteq> toy_samples ! 1 ! 0" by code_simp
  have h: "toy_samples ! 0 ! 1 \<noteq> toy_samples ! 1 ! 1" by code_simp
  have i: "mmse_panel toy_mmse 2 = Inr (toy_mmse ! 2)" by code_simp
  have j: "sample_panel toy_samples 2 = Inl IndexError" by code_simp
  show ?thesis
    by (rule conjI[OF toy_run conjI[OF a conjI[OF b conjI[OF c conjI[OF d conjI[OF e
          conjI[OF f conjI[OF g conjI[OF h conjI[OF i j]]]]]]]]]])
qed

lemma saved_run:
  assumes "inference step bs n td g = Inr (mmse, samples, g')"
    and "\<And>g b. shape4 (fst (step g b)) = shape4 b"
  shows "0 < n"
    and "shape4 mmse = shape4 td"
    and "samples = moveaxis_1_0 (passes step (batches (nat bs) td) (nat n) g)"
    and "list_all (\<lambda>t. shape4 t = shape4 td) (passes step (batches (nat bs) td) (nat n) g)"
    and "in_range td f c h w \<Longrightarrow>
           mmse ! f ! c ! h ! w
           = (\<Sum>i<nat n. passes step (batches (nat bs) td) (nat n) g ! i ! f ! c ! h ! w)
             / real_of_int n"
proof -
  note h = inference_Inr_hyps[OF assms]
  from inference_run[where step = step and g = g, OF h assms(2)] obtain m where
    r: "inference step bs n td g
          = Inr (m, moveaxis_1_0 (passes step (batches (nat bs) td) (nat n) g),
                 after_passes step (batches (nat bs) td) (nat n) g)"
    and s: "shape4 m = shape4 td"
    and p: "\<And>f c h w. in_range td f c h w \<Longrightarrow>
              m ! f ! c ! h ! w
              = (\<Sum>i<nat n. passes step (batches (nat bs) td) (nat n) g ! i ! f ! c ! h ! w)
                / real_of_int n"
    by blast
  from r assms(1) have e: "mmse = m"
    "samples = moveaxis_1_0 (passes step (batches (nat bs) td) (nat n) g)" by simp_all
  show "0 < n" by (rule h(2))
  show "shape4 mmse = shape4 td" using s e by simp
  show "samples = moveaxis_1_0 (passes step (batches (nat bs) td) (nat n) g)" by (rule e(2))
  show "list_all (\<lambda>t. shape4 t = shape4 td) (passes step (batches (nat bs) td) (nat n) g)"
    using assms(2) h(1) by (intro passes_shapes) simp_all
  show "mmse ! f ! c ! h ! w
           = (\<Sum>i<nat n. passes step (batches (nat bs) td) (nat n) g ! i ! f ! c ! h ! w)
             / real_of_int n" if "in_range td f c h w"
    using p[OF that] e by simp
qed


lemma saved_samples_nth:
  assumes "inference step bs n td g = Inr (mmse, samples, g')"
    and "\<And>g b. shape4 (fst (step g b)) = shape4 b"
  shows "length samples = length td"
    and "f < length td \<Longrightarrow> length (samples ! f) = nat n"
    and "f < length td \<Longrightarrow> s < nat n \<Longrightarrow>
           samples ! f ! s = passes step (batches (nat bs) td) (nat n) g ! s ! f"
    and "f < length td \<Longrightarrow> s < nat n \<Longrightarrow> shape3 (samples ! f ! s) = shape3 (td ! f)"
proof -
  let ?P = "passes step (batches (nat bs) td) (nat n) g"
  have len: "length ?P = nat n" by (rule length_passes)
  have n: "0 < n" using assms by (rule saved_run(1))
  have ne: "?P \<noteq> []"
  proof
    assume "?P = []"
    then have "length ?P = 0" by simp
    with len n show False by simp
  qed
  have shp: "list_all (\<lambda>t. shape4 t = shape4 td) ?P" using assms by (rule saved_run(4))
  have lens: "list_all (\<lambda>t. length t = length td) ?P"
    unfolding list_all_iff
  proof
    fix t assume "t \<in> set ?P"
    with shp have "shape4 t = shape4 td" unfolding list_all_iff by blast
    then show "length t = length td" by (rule shape4_length)
  qed
  have sm: "samples = moveaxis_1_0 ?P" using assms by (rule saved_run(3))
  show "length samples = length td"
    unfolding sm using ne lens by (rule moveaxis_nth(1))
  have row: "samples ! f = map (\<lambda>s. s ! f) ?P" if "f < length td" for f
    unfolding sm using ne lens that by (rule moveaxis_nth(2))
  show "length (samples ! f) = nat n" if "f < length td"
    using row[OF that] len by simp
  show eq: "samples ! f ! s = ?P ! s ! f" if "f < length td" "s < nat n"
    using row[OF that(1)] len that(2) by simp
  show "shape3 (samples ! f ! s) = shape3 (td ! f)" if "f < length td" "s < nat n"
  proof -
    have "?P ! s \<in> set ?P" using that(2) len by simp
    with shp have s4: "shape4 (?P ! s) = shape4 td" unfolding list_all_iff by blast
    then have "length (?P ! s) = length td" by (rule shape4_length)
    with that(1) have "f < length (?P ! s)" by simp
    with s4 have "shape3 (?P ! s ! f) = shape3 (td ! f)" by (rule shape4_nth)
    then show ?thesis using eq[OF that] by simp
  qed
qed

section \<open>The MMSE estimate\<close>





section \<open>The two saved arrays agree\<close>

text \<open>
  Claim C10. Let the network return for every batch a batch of the same shape. In every
  run that ends without an exception the two saved arrays agree: they have the same number
  of frames, every sample of a frame is an image of the shape of that frame's MMSE image, and
  every pixel of the MMSE array is the sum of that pixel over the sample axis of the samples
  array divided by the length of that axis. (A network that returned one frame for a batch
  of several would have its output broadcast into the running sum, and the two arrays would
  then differ in their number of frames.)
\<close>

theorem saved_mmse_is_mean_of_saved_samples:
  assumes "inference step bs n td g = Inr (mmse, samples, g')"
    and "\<And>g b. shape4 (fst (step g b)) = shape4 b"
  shows "length samples = length mmse \<and>
         (\<forall>f c h w. in_range mmse f c h w \<longrightarrow>
            0 < length (samples ! f) \<and>
            (\<forall>s<length (samples ! f). shape3 (samples ! f ! s) = shape3 (mmse ! f)) \<and>
            mmse ! f ! c ! h ! w
            = (\<Sum>s<length (samples ! f). samples ! f ! s ! c ! h ! w) / real (length (samples ! f)))"
proof -
  have sh: "shape4 mmse = shape4 td" using assms by (rule saved_run(2))
  then have len: "length mmse = length td" by (rule shape4_length)
  have n: "0 < n" using assms by (rule saved_run(1))
  have first: "length samples = length mmse"
    using saved_samples_nth(1)[OF assms] len by simp
  have core: "0 < length (samples ! f) \<and>
            (\<forall>s<length (samples ! f). shape3 (samples ! f ! s) = shape3 (mmse ! f)) \<and>
            mmse ! f ! c ! h ! w
            = (\<Sum>s<length (samples ! f). samples ! f ! s ! c ! h ! w) / real (length (samples ! f))"
    if r: "in_range mmse f c h w" for f c h w
  proof -
    from r have f: "f < length td" using len by (simp add: in_range_def)
    have rt: "in_range td f c h w" using sh r by (rule in_range_shape4)
    have ls: "length (samples ! f) = nat n" using assms f by (rule saved_samples_nth(2))
    have "f < length mmse" using f len by simp
    with sh have s3: "shape3 (mmse ! f) = shape3 (td ! f)" by (rule shape4_nth)
    have a: "0 < length (samples ! f)" using ls n by simp
    have b: "\<forall>s<length (samples ! f). shape3 (samples ! f ! s) = shape3 (mmse ! f)"
      using saved_samples_nth(4)[OF assms f] ls s3 by simp
    have "mmse ! f ! c ! h ! w
        = (\<Sum>i<nat n. passes step (batches (nat bs) td) (nat n) g ! i ! f ! c ! h ! w) / real_of_int n"
      using assms rt by (rule saved_run(5))
    also have "(\<Sum>i<nat n. passes step (batches (nat bs) td) (nat n) g ! i ! f ! c ! h ! w)
        = (\<Sum>s<nat n. samples ! f ! s ! c ! h ! w)"
      by (rule sum.cong) (simp_all add: saved_samples_nth(3)[OF assms f])
    finally have "mmse ! f ! c ! h ! w
            = (\<Sum>s<length (samples ! f). samples ! f ! s ! c ! h ! w) / real (length (samples ! f))"
      using ls n by simp
    with a b show ?thesis by (intro conjI)
  qed
  show ?thesis
  proof (rule conjI[OF first], intro allI impI)
    fix f c h w assume "in_range mmse f c h w"
    then show "0 < length (samples ! f) \<and>
            (\<forall>s<length (samples ! f). shape3 (samples ! f ! s) = shape3 (mmse ! f)) \<and>
            mmse ! f ! c ! h ! w
            = (\<Sum>s<length (samples ! f). samples ! f ! s ! c ! h ! w) / real (length (samples ! f))"
      by (rule core)
  qed
qed

theorem saved_mmse_is_mean_of_saved_samples_witness:
  "inference toy_step 2 2 toy_data 0 = Inr (toy_mmse, toy_samples, 6) \<and>
   (\<forall>g b. shape4 (fst (toy_step g b)) = shape4 b) \<and>
   length toy_samples = length toy_mmse \<and>
   in_range toy_mmse 1 0 0 1 \<and>
   0 < length (toy_samples ! 1) \<and>
   shape3 (toy_samples ! 1 ! 0) = shape3 (toy_mmse ! 1) \<and>
   toy_mmse ! 1 ! 0 ! 0 ! 1
   = (\<Sum>s<length (toy_samples ! 1). toy_samples ! 1 ! s ! 0 ! 0 ! 1) / real (length (toy_samples ! 1))"
proof -
  have h: "\<forall>g b. shape4 (fst (toy_step g b)) = shape4 b"
    by (intro allI) (rule toy_step_shape)
  have r: "in_range toy_mmse 1 0 0 1"
    by (simp add: in_range_def toy_mmse_def)
  note u = saved_mmse_is_mean_of_saved_samples[OF toy_run toy_step_shape]
  note t = u[THEN conjunct2, rule_format, OF r]
  note pos = t[THEN conjunct1]
  note shp = t[THEN conjunct2, THEN conjunct1, rule_format, OF pos]
  note mean = t[THEN conjunct2, THEN conjunct2]
  show ?thesis
    by (rule conjI[OF toy_run conjI[OF h conjI[OF u[THEN conjunct1] conjI[OF r
          conjI[OF pos conjI[OF shp mean]]]]]])
qed

section \<open>The batch size of the prediction loader\<close>

lemma per_image_append:
  "per_image f g (xs @ ys) =
     (case per_image f g xs of (a, g1) \<Rightarrow>
        (case per_image f g1 ys of (b, g2) \<Rightarrow> (a @ b, g2)))"
  by (induction xs arbitrary: g) (auto split: prod.splits)

lemma predict_per_image:
  assumes "\<And>g b. step g b = per_image f g b"
  shows "(case predict step g L of (outs, g') \<Rightarrow> (concat outs, g')) = per_image f g (concat L)"
proof (induction L arbitrary: g)
  case Nil
  then show ?case by simp
next
  case (Cons b L)
  obtain y g1 where s: "per_image f g b = (y, g1)" by (cases "per_image f g b")
  then have s': "step g b = (y, g1)" by (simp only: assms)
  obtain ys g2 where p: "predict step g1 L = (ys, g2)" by (cases "predict step g1 L")
  have "per_image f g1 (concat L) = (concat ys, g2)" using Cons[of g1] p by simp
  then show ?case using s s' p by (simp add: per_image_append)
qed

lemma predict_batches:
  assumes "\<And>g b. step g b = per_image f g b" and "0 < k"
    and "predict step g (batches k xs) = (outs, g')"
  shows "concat outs = fst (per_image f g xs)" and "g' = snd (per_image f g xs)"
    and "outs = [] \<longleftrightarrow> xs = []"
proof -
  have "(concat outs, g') = per_image f g (concat (batches k xs))"
    using predict_per_image[of step f g "batches k xs", OF assms(1)] assms(3) by simp
  then have e: "(concat outs, g') = per_image f g xs"
    using assms(2) by (simp add: concat_batches)
  from e show "concat outs = fst (per_image f g xs)" by (metis fst_conv)
  from e show "g' = snd (per_image f g xs)" by (metis snd_conv)
  have "fst (predict step g (batches k xs)) = [] \<longleftrightarrow> batches k xs = []"
    by (rule predict_empty_iff)
  then show "outs = [] \<longleftrightarrow> xs = []"
    using assms(2) assms(3) by (simp add: batches_empty_iff)
qed

lemma cat0_cong:
  "concat a = concat b \<Longrightarrow> (a = [] \<longleftrightarrow> b = []) \<Longrightarrow> cat0 a = cat0 b"
  by (simp add: cat0_def)

lemma sample_loop_batches:
  assumes "\<And>g b. step g b = per_image f g b" and "0 < k1" and "0 < k2"
  shows "sample_loop step (batches k1 xs) n st = sample_loop step (batches k2 xs) n st"
proof (induction n arbitrary: st)
  case 0
  then show ?case by simp
next
  case (Suc n)
  obtain ss mm g where st: "st = (ss, mm, g)" by (cases st)
  obtain o1 g1 where p1: "predict step g (batches k1 xs) = (o1, g1)"
    by (cases "predict step g (batches k1 xs)")
  obtain o2 g2 where p2: "predict step g (batches k2 xs) = (o2, g2)"
    by (cases "predict step g (batches k2 xs)")
  note a = predict_batches[OF assms(1) assms(2) p1]
  note b = predict_batches[OF assms(1) assms(3) p2]
  have g: "g1 = g2" using a(2) b(2) by simp
  have "concat o1 = concat o2" using a(1) b(1) by simp
  moreover have "o1 = [] \<longleftrightarrow> o2 = []" using a(3) b(3) by simp
  ultimately have c: "cat0 o1 = cat0 o2" by (rule cat0_cong)
  show ?case
    unfolding st using p1 p2 c g Suc.IH by (simp split: sum.splits)
qed

text \<open>
  Claim C4, as the notebook behaves. The loop fixes the input, the sample count and the
  state of the random number generator at its start; how the network spends its draws on a
  batch is the network's own matter. Let the network handle the images of a batch one at a
  time, each with the random draws that follow those of the image before it, so that the
  draws an image receives do not depend on how the frames are grouped. Then for any two
  positive batch sizes the inference cell gives the same result: the same MMSE array, the
  same samples array and the same final generator state, or the same exception.
\<close>

theorem inference_batch_size_invariant:
  assumes "\<And>g b. step g b = per_image f g b" and "0 < bs1" and "0 < bs2"
  shows "inference step bs1 n td g = inference step bs2 n td g"
proof -
  have "sample_loop step (batches (nat bs1) td) (nat n) ([], zeros_like td, g)
      = sample_loop step (batches (nat bs2) td) (nat n) ([], zeros_like td, g)"
    using assms by (intro sample_loop_batches[where f = f]) simp_all
  then show ?thesis using assms(2,3) by (simp add: inference_def DataLoader_def)
qed

lemma toy_step_per_image: "toy_step g b = per_image toy_denoise g b"
  by (simp add: toy_step_def)

theorem inference_batch_size_invariant_witness:
  "(\<forall>g b. toy_step g b = per_image toy_denoise g b) \<and> (0::int) < 1 \<and> (0::int) < 2 \<and>
   inference toy_step 1 2 toy_data 0 = inference toy_step 2 2 toy_data 0 \<and>
   inference toy_step 2 2 toy_data 0 = Inr (toy_mmse, toy_samples, 6)"
proof -
  have h1: "(0::int) < 1" and h2: "(0::int) < 2" by simp_all
  have h0: "\<forall>g b. toy_step g b = per_image toy_denoise g b"
    by (simp add: toy_step_def)
  note t = inference_batch_size_invariant[where step = toy_step and f = toy_denoise and n = 2
     and td = toy_data and g = 0, OF toy_step_per_image h1 h2]
  show ?thesis by (rule conjI[OF h0 conjI[OF h1 conjI[OF h2 conjI[OF t toy_run]]]])
qed

lemma two_level_step_shape: "shape4 (fst (two_level_step g b)) = shape4 b"
proof -
  have "map shape3 (map (\<lambda>(i, x). map (map (map (p i))) x) (zip [0 ..< length b] b))
        = map shape3 b" for p :: "nat \<Rightarrow> real \<Rightarrow> real"
    by (rule nth_equalityI) (simp_all add: shape3_def comp_def)
  then show ?thesis by (simp add: two_level_step_def shape4_def)
qed

text \<open>
  The claim as written, for any network, fails. With a network whose levels draw for the
  whole batch at once (and which returns for every batch a batch of the same shape), the same
  input, sample count and initial generator state give one MMSE array for batch size one and
  another for batch size two.
\<close>

theorem inference_batch_size_counterexample:
  "map_sum id fst (inference two_level_step 1 2 toy_data 0)
     = Inr [[[[35, 36]]], [[[86, 96]]], [[[578, 678]]]] \<and>
   map_sum id fst (inference two_level_step 2 2 toy_data 0)
     = Inr [[[[36, 37]]], [[[76, 86]]], [[[578, 678]]]] \<and>
   map_sum id fst (inference two_level_step 1 2 toy_data 0)
     \<noteq> map_sum id fst (inference two_level_step 2 2 toy_data 0)"
proof -
  have a: "map_sum id fst (inference two_level_step 1 2 toy_data 0)
     = Inr [[[[35, 36]]], [[[86, 96]]], [[[578, 678]]]]" by code_simp
  have b: "map_sum id fst (inference two_level_step 2 2 toy_data 0)
     = Inr [[[[36, 37]]], [[[76, 86]]], [[[578, 678]]]]" by code_simp
  have c: "map_sum id fst (inference two_level_step 1 2 toy_data 0)
     \<noteq> map_sum id fst (inference two_level_step 2 2 toy_data 0)"
    unfolding a b by simp
  show ?thesis by (rule conjI[OF a conjI[OF b c]])
qed

section \<open>Normalisation is invertible\<close>

text \<open>
  Claim C7. For a standard deviation other than zero, de-normalising a normalised tensor
  gives the tensor back, for every tensor of real numbers. (For a standard deviation of zero
  the quotient is not a finite number.)
\<close>

theorem denormalize_normalize:
  assumes "data_std \<noteq> 0"
  shows "denormalize data_mean data_std (normalize data_mean data_std x) = x"
  using assms by (simp add: denormalize_def normalize_def comp_def)

theorem denormalize_normalize_witness:
  "(4::real) \<noteq> 0 \<and> denormalize 2 4 (normalize 2 4 toy_data) = toy_data"
proof -
  have h: "(4::real) \<noteq> 0" by simp
  show ?thesis by (rule conjI[OF h denormalize_normalize[OF h]])
qed

section \<open>The KL terms are not negative\<close>

lemma kl_gauss_nonneg: "0 \<le> kl_gauss mu_q lv_q mu_p lv_p"
proof -
  have e: "exp lv_q / exp lv_p = exp (lv_q - lv_p)" by (simp add: exp_diff)
  have c: "1 + (lv_q - lv_p) \<le> exp (lv_q - lv_p)" by (rule exp_ge_add_one_self)
  have a: "0 \<le> lv_p - lv_q + exp lv_q / exp lv_p - 1" unfolding e using c by linarith
  have b: "0 \<le> (mu_q - mu_p)\<^sup>2 / exp lv_p" by simp
  have "kl_gauss mu_q lv_q mu_p lv_p
        = ((lv_p - lv_q + exp lv_q / exp lv_p - 1) + (mu_q - mu_p)\<^sup>2 / exp lv_p) / 2"
    by (simp add: kl_gauss_def add_divide_distrib)
  moreover have "0 \<le> (lv_p - lv_q + exp lv_q / exp lv_p - 1) + (mu_q - mu_p)\<^sup>2 / exp lv_p"
    using a b by (rule add_nonneg_nonneg)
  ultimately show ?thesis by (simp only: zero_le_divide_iff) simp
qed

lemma kl_level_nonneg: "0 \<le> kl_level lo hi q p"
  unfolding kl_level_def
  by (rule sum_list_nonneg) (auto simp add: kl_gauss_nonneg split: prod.splits)

text \<open>
  Claim C6. Every per-level KL term is at least zero, for all means and log-variances of the
  posterior and of the prior, at the top level (standard normal prior) and at every level
  below it (learned prior).
\<close>

theorem kl_terms_nonneg: "list_all (\<lambda>k. 0 \<le> k) (kl_terms lo hi qs priors)"
proof (cases qs)
  case Nil
  then show ?thesis by simp
next
  case (Cons q_top rest)
  have "list_all (\<lambda>k. 0 \<le> k) (map2 (kl_level lo hi) rest priors)"
    by (auto simp add: list_all_iff kl_level_nonneg)
  then show ?thesis using Cons by (simp add: kl_level_nonneg)
qed

theorem kl_terms_nonneg_witness:
  "list_all (\<lambda>k. 0 \<le> k) (kl_terms (- 10) 10 [[(1, 0)], [(0, 1), (3, - 2)]] [[(2, 0), (3, 1)]])"
  by (rule kl_terms_nonneg)

section \<open>The noise model is causal\<close>

lemma agree_nth: "agree n a b \<Longrightarrow> j < n \<Longrightarrow> j < length a \<Longrightarrow> a ! j = b ! j"
  unfolding agree_def by (metis nth_take)

lemma agreeI:
  assumes "length a = length b" and "\<And>j. j < n \<Longrightarrow> j < length a \<Longrightarrow> a ! j = b ! j"
  shows "agree n a b"
  unfolding agree_def using assms by (auto intro!: nth_equalityI)

lemma window_agree:
  assumes "agree n a b" and "c \<le> n" and "c \<le> length a"
  shows "window pad K a c = window pad K b c"
  unfolding window_def
proof (rule map_cong[OF refl])
  fix i assume "i \<in> set [0 ..< K]"
  then have i: "i < K" by simp
  show "(if c + i < K then pad else a ! (c + i - K)) = (if c + i < K then pad else b ! (c + i - K))"
  proof (cases "c + i < K")
    case True
    then show ?thesis by simp
  next
    case False
    with i have "c + i - K < c" by arith
    with assms have "a ! (c + i - K) = b ! (c + i - K)"
      by (intro agree_nth[OF assms(1)]) auto
    with False show ?thesis by simp
  qed
qed

lemma shifted_conv_agree:
  assumes "agree n a b"
  shows "agree (Suc n) (shifted_conv k K s r a) (shifted_conv k K s r b)"
proof (rule agreeI)
  show "length (shifted_conv k K s r a) = length (shifted_conv k K s r b)"
    using assms by (simp add: shifted_conv_def agree_def)
  fix j assume "j < Suc n" and "j < length (shifted_conv k K s r a)"
  then have j: "j \<le> n" "j < length a" by (simp_all add: shifted_conv_def)
  then have "j < length b" using assms by (simp add: agree_def)
  moreover have "window 0 K a j = window 0 K b j"
    using assms j by (intro window_agree) auto
  ultimately show "shifted_conv k K s r a ! j = shifted_conv k K s r b ! j"
    using j by (simp add: shifted_conv_def)
qed

lemma causal_conv_agree:
  assumes "agree n a b"
  shows "agree n (causal_conv pad K s r k a) (causal_conv pad K s r k b)"
proof (rule agreeI)
  show "length (causal_conv pad K s r k a) = length (causal_conv pad K s r k b)"
    using assms by (simp add: causal_conv_def agree_def)
  fix j assume "j < n" and "j < length (causal_conv pad K s r k a)"
  then have j: "j < n" "j < length a" by (simp_all add: causal_conv_def)
  then have "j < length b" using assms by (simp add: agree_def)
  moreover have "window pad K a (Suc j) = window pad K b (Suc j)"
    using assms j by (intro window_agree) auto
  ultimately show "causal_conv pad K s r k a ! j = causal_conv pad K s r k b ! j"
    using j by (simp add: causal_conv_def)
qed

lemma fold_causal_conv_agree:
  "agree n a b \<Longrightarrow>
   agree n (fold (causal_conv pad K s r) ks a) (fold (causal_conv pad K s r) ks b)"
  by (induction ks arbitrary: a b) (simp_all add: causal_conv_agree)

lemma out_conv_agree:
  assumes "agree n a b"
  shows "agree n (out_conv head s r a) (out_conv head s r b)"
proof (rule agreeI)
  show "length (out_conv head s r a) = length (out_conv head s r b)"
    using assms by (simp add: out_conv_def agree_def)
  fix j assume "j < n" and "j < length (out_conv head s r a)"
  then have j: "j < n" "j < length a" by (simp_all add: out_conv_def)
  then have "j < length b" using assms by (simp add: agree_def)
  moreover have "a ! j = b ! j" using assms j by (rule agree_nth)
  ultimately show "out_conv head s r a ! j = out_conv head s r b ! j"
    using j by (simp add: out_conv_def)
qed

lemma noise_row_agree:
  "agree n a b \<Longrightarrow> agree (Suc n) (noise_row net s r a) (noise_row net s r b)"
  unfolding noise_row_def
  by (intro out_conv_agree fold_causal_conv_agree shifted_conv_agree)

lemma length_fold_causal_conv: "length (fold (causal_conv pad K s r) ks h) = length h"
  by (induction ks arbitrary: h) (simp_all add: causal_conv_def)

lemma length_noise_row: "length (noise_row net s r row) = length row"
  by (simp add: noise_row_def out_conv_def shifted_conv_def length_fold_causal_conv)

text \<open>
  Claim C5. Fix the network and the signal code, and replace the pixel at row \<open>r\<close>, column
  \<open>c\<close> of the noisy image by any value. The mixture parameters predicted at a pixel of
  another row (earlier or later), and at a pixel of row \<open>r\<close> at a column up to and including
  \<open>c\<close>, do not change.
\<close>

theorem noise_model_causal:
  assumes "r' < length x" and "c' < length (x ! r')" and "r' \<noteq> r \<or> c' \<le> c"
  shows "noise_model net s (perturb x r c v) ! r' ! c' = noise_model net s x ! r' ! c'"
proof -
  have rows: "noise_model net s (perturb x r c v) ! r' = noise_row net s r' (perturb x r c v ! r')"
    "noise_model net s x ! r' = noise_row net s r' (x ! r')"
    using assms(1) by (simp_all add: noise_model_def perturb_def)
  show ?thesis
  proof (cases "r' = r")
    case False
    then have "perturb x r c v ! r' = x ! r'" by (simp add: perturb_def)
    then show ?thesis using rows by simp
  next
    case True
    with assms(3) have cc: "c' \<le> c" by simp
    have p: "perturb x r c v ! r' = (x ! r')[c := v]"
      using True assms(1) by (simp add: perturb_def)
    have "agree c ((x ! r')[c := v]) (x ! r')" by (simp add: agree_def)
    then have "agree (Suc c) (noise_row net s r' ((x ! r')[c := v])) (noise_row net s r' (x ! r'))"
      by (rule noise_row_agree)
    moreover have "c' < length (noise_row net s r' ((x ! r')[c := v]))"
      using assms(2) by (simp add: length_noise_row)
    ultimately have "noise_row net s r' ((x ! r')[c := v]) ! c' = noise_row net s r' (x ! r') ! c'"
      using cc by (intro agree_nth[where n = "Suc c"]) auto
    then show ?thesis using rows p by simp
  qed
qed

theorem noise_model_causal_witness:
  "(0::nat) < length toy_noisy \<and> (1::nat) < length (toy_noisy ! 0) \<and> (1::nat) \<le> 1 \<and>
   noise_model toy_net () (perturb toy_noisy 0 1 10) ! 0 ! 1 = noise_model toy_net () toy_noisy ! 0 ! 1 \<and>
   noise_model toy_net () toy_noisy = [[0, 2, 8, 16], [0, 10, 32, 48]] \<and>
   noise_model toy_net () (perturb toy_noisy 0 1 10) = [[0, 2, 24, 48], [0, 10, 32, 48]]"
proof -
  have h1: "(0::nat) < length toy_noisy" by (simp add: toy_noisy_def)
  have h2: "(1::nat) < length (toy_noisy ! 0)" by (simp add: toy_noisy_def)
  have h3: "(1::nat) \<le> 1" by simp
  have h3': "(0::nat) \<noteq> 0 \<or> (1::nat) \<le> 1" by simp
  have v1: "noise_model toy_net () toy_noisy = [[0, 2, 8, 16], [0, 10, 32, 48]]"
    by code_simp
  have v2: "noise_model toy_net () (perturb toy_noisy 0 1 10) = [[0, 2, 24, 48], [0, 10, 32, 48]]"
    by code_simp
  note t = noise_model_causal[where net = toy_net and s = "()" and v = 10, OF h1 h2 h3']
  show ?thesis by (rule conjI[OF h1 conjI[OF h2 conjI[OF h3 conjI[OF t conjI[OF v1 v2]]]]])
qed

end
